theory Spec2Isabelle
  imports
    Main
    "HOL-Library.Word"
    "HOL-Library.Char_ord"
    "HOL-Library.List_Lexorder"
    "HOL-Library.Product_Lexorder"
begin

section \<open>The key-value engine of include/kv_storage.h\<close>

text \<open>
  The class template \<open>KVStorage<Clock>\<close> keeps two containers, \<open>records_\<close>
  (a \<open>std::map\<close> from key to \<open>Record\<close>) and \<open>expiry_queue_\<close> (a \<open>std::set\<close> of
  \<open>ExpiryEntry\<close>), and reads the time from \<open>clock_\<close>. The embedding below follows the
  header member by member.

  \<^item> Keys and values are \<open>std::string\<close>: byte strings compared lexicographically, which is
    the order of \<open>char list\<close> given by \<open>Char_ord\<close> and \<open>List_Lexorder\<close>.
  \<^item> A \<open>Clock::time_point\<close> is the count of clock ticks since the clock's epoch, an
    \<open>int\<close>. The number of ticks in one second belongs to the clock type (the template
    parameter), so it is the parameter \<open>sec\<close> of whatever adds seconds to an instant.
    The counter of \<open>std::chrono::system_clock\<close>, the default clock and the one the
    clock of the tests borrows its \<open>time_point\<close> from, is a signed 64-bit integer:
    \<open>to_int64\<close> is what such a counter holds after an addition. (C++ leaves an
    overflowing signed addition undefined; the model takes the two's-complement result.)
  \<^item> A call that reads the clock once takes the instant \<open>clock_.now()\<close> reports as its
    parameter \<open>now\<close>. \<open>getManySorted\<close> reads the clock once for every entry with an
    expiry that its scan visits, and so takes the readings of its call: \<open>clock i\<close> is
    the instant reported by read number \<open>i\<close> of the call.
  \<^item> The mutex only serialises the calls; one call is one step of the model.
\<close>

type_synonym time_point = int

definition to_int64 :: "int \<Rightarrow> int" where
  "to_int64 x = (x + 2 ^ 63) mod 2 ^ 64 - 2 ^ 63"

definition seconds :: "int \<Rightarrow> 32 word \<Rightarrow> int" where
  \<comment> \<open>\<open>std::chrono::seconds(ttl)\<close> as a number of ticks of the clock\<close>
  "seconds sec ttl = sec * uint ttl"

definition steady :: "time_point \<Rightarrow> nat \<Rightarrow> time_point" where
  \<comment> \<open>the readings of a clock that reports the same instant throughout a call\<close>
  "steady now i = now"

text \<open>
  \<open>struct Record { std::string value; std::optional<time_point> expiry; }\<close>. The field
  \<open>value\<close> is \<open>value_str\<close> here, and the members \<open>records_\<close> and \<open>expiry_queue_\<close> lose
  their trailing underscore.
\<close>

record Record =
  value_str :: string
  expiry :: "time_point option"

text \<open>
  \<open>struct ExpiryEntry { time_point expiry; std::string key; }\<close> whose \<open>operator<\<close>
  compares \<open>std::tie(expiry, key)\<close>: the pair (expiry, key) under the lexicographic
  order on pairs (\<open>Product_Lexorder\<close>).
\<close>

type_synonym ExpiryEntry = "time_point \<times> string"

record KVStorage =
  records :: "(string \<times> Record) list"
  expiry_queue :: "ExpiryEntry list"

subsection \<open>The containers\<close>

text \<open>
  A \<open>std::map\<close> is the list of its bindings in iteration order (ascending keys, each key
  once), a \<open>std::set\<close> the list of its elements in iteration order (ascending, each once).
  An iterator is the part of that list from the element it points to onwards; \<open>end()\<close> is
  the empty list.
\<close>

fun map_find :: "'k \<Rightarrow> ('k \<times> 'v) list \<Rightarrow> 'v option" where
  "map_find k [] = None"
| "map_find k ((k', v) # m) = (if k' = k then Some v else map_find k m)"

fun map_assign :: "'k::linorder \<Rightarrow> 'v \<Rightarrow> ('k \<times> 'v) list \<Rightarrow> ('k \<times> 'v) list" where
  "map_assign k v [] = [(k, v)]"
| "map_assign k v ((k', v') # m) =
     (if k < k' then (k, v) # (k', v') # m
      else if k = k' then (k, v) # m
      else (k', v') # map_assign k v m)"

fun map_erase :: "'k \<Rightarrow> ('k \<times> 'v) list \<Rightarrow> ('k \<times> 'v) list" where
  "map_erase k [] = []"
| "map_erase k ((k', v) # m) = (if k' = k then m else (k', v) # map_erase k m)"

fun lower_bound :: "'k::linorder \<Rightarrow> ('k \<times> 'v) list \<Rightarrow> ('k \<times> 'v) list" where
  "lower_bound k [] = []"
| "lower_bound k ((k', v) # m) = (if k' < k then lower_bound k m else (k', v) # m)"

definition default_Record :: Record where
  "default_Record = \<lparr>value_str = [], expiry = None\<rparr>"

definition map_subscript :: "'k::linorder \<Rightarrow> ('k \<times> Record) list \<Rightarrow> Record \<times> ('k \<times> Record) list" where
  \<comment> \<open>\<open>m[k]\<close> read: a missing key is first bound to a value-initialised Record\<close>
  "map_subscript k m =
     (case map_find k m of
        Some r \<Rightarrow> (r, m)
      | None \<Rightarrow> (default_Record, map_assign k default_Record m))"

fun set_insert :: "'a::linorder \<Rightarrow> 'a list \<Rightarrow> 'a list" where
  "set_insert x [] = [x]"
| "set_insert x (y # ys) =
     (if x < y then x # y # ys
      else if x = y then y # ys
      else y # set_insert x ys)"

fun set_erase :: "'a \<Rightarrow> 'a list \<Rightarrow> 'a list" where
  "set_erase x [] = []"
| "set_erase x (y # ys) = (if y = x then ys else y # set_erase x ys)"

definition well_formed :: "KVStorage \<Rightarrow> bool" where
  \<comment> \<open>what the two container types guarantee of their contents\<close>
  "well_formed s \<longleftrightarrow> sorted_wrt (<) (map fst (records s)) \<and> sorted_wrt (<) (expiry_queue s)"

subsection \<open>The operations\<close>

definition empty_storage :: KVStorage where
  "empty_storage = \<lparr>records = [], expiry_queue = []\<rparr>"

definition set_kv :: "int \<Rightarrow> time_point \<Rightarrow> KVStorage \<Rightarrow> string \<Rightarrow> string \<Rightarrow> 32 word \<Rightarrow> KVStorage" where
  "set_kv sec now s key v ttl =
     (let ex = (if ttl \<noteq> 0 then Some (to_int64 (now + seconds sec ttl)) else None);
          s1 = s\<lparr>records := map_assign key \<lparr>value_str = v, expiry = ex\<rparr> (records s)\<rparr>
      in case ex of
           Some e \<Rightarrow> s1\<lparr>expiry_queue := set_insert (e, key) (expiry_queue s1)\<rparr>
         | None \<Rightarrow> s1)"

definition remove_kv :: "KVStorage \<Rightarrow> string \<Rightarrow> bool \<times> KVStorage" where
  "remove_kv s key =
     (case map_find key (records s) of
        None \<Rightarrow> (False, s)
      | Some r \<Rightarrow>
          (let s1 = (case expiry r of
                       Some e \<Rightarrow> s\<lparr>expiry_queue := set_erase (e, key) (expiry_queue s)\<rparr>
                     | None \<Rightarrow> s)
           in (True, s1\<lparr>records := map_erase key (records s1)\<rparr>)))"

definition get :: "time_point \<Rightarrow> KVStorage \<Rightarrow> string \<Rightarrow> string option" where
  "get now s key =
     (case map_find key (records s) of
        None \<Rightarrow> None
      | Some r \<Rightarrow>
          (case expiry r of
             Some e \<Rightarrow> if e \<le> now then None else Some (value_str r)
           | None \<Rightarrow> Some (value_str r)))"

text \<open>
  The loop of \<open>getManySorted\<close>. Its condition
  \<open>!it->second.expiry || *it->second.expiry > clock_.now()\<close> reads the clock only when
  the entry has an expiry; \<open>i\<close> counts the reads the call has made so far.
\<close>

fun getManySorted_loop ::
  "(nat \<Rightarrow> time_point) \<Rightarrow> nat \<Rightarrow> nat \<Rightarrow> (string \<times> Record) list
     \<Rightarrow> (string \<times> string) list \<Rightarrow> (string \<times> string) list" where
  "getManySorted_loop clock i count [] result = result"
| "getManySorted_loop clock i count ((k, r) # it) result =
     (if length result < count
      then (case expiry r of
              None \<Rightarrow> getManySorted_loop clock i count it (result @ [(k, value_str r)])
            | Some e \<Rightarrow>
                getManySorted_loop clock (Suc i) count it
                  (if clock i < e then result @ [(k, value_str r)] else result))
      else result)"

definition getManySorted ::
  "(nat \<Rightarrow> time_point) \<Rightarrow> KVStorage \<Rightarrow> string \<Rightarrow> 32 word \<Rightarrow> (string \<times> string) list" where
  "getManySorted clock s key count =
     (let it = lower_bound key (records s);
          it1 = (case it of
                   [] \<Rightarrow> it
                 | (k, r) # rest \<Rightarrow> if k = key then rest else it)
      in getManySorted_loop clock 0 (unat count) it1 [])"

text \<open>
  \<open>removeOneExpiredEntry\<close> looks at \<open>begin(expiry_queue_)\<close> only. \<open>records_[it->key]\<close>
  is the subscript operator, which binds a missing key before it is read.

  The function returns \<open>std::make_pair(it->key, value)\<close> after
  \<open>expiry_queue_.erase(it)\<close>: the key is read from the element that has just been
  destroyed and freed. What that read gives is not decided by the engine. A key of fewer
  than 16 bytes lies inside the string object of the freed node (the GNU C++ library
  keeps strings of up to 15 bytes there), and the read still finds it; the characters of
  a longer key were in a block of their own, freed with the element, and the read gives
  whatever that memory holds by then: \<open>freed key\<close>, a parameter of the call.
\<close>

definition read_after_erase :: "(string \<Rightarrow> string) \<Rightarrow> string \<Rightarrow> string" where
  "read_after_erase freed key = (if length key < 16 then key else freed key)"

definition removeOneExpiredEntry ::
  "(string \<Rightarrow> string) \<Rightarrow> time_point \<Rightarrow> KVStorage \<Rightarrow> (string \<times> string) option \<times> KVStorage" where
  "removeOneExpiredEntry freed now s =
     (case expiry_queue s of
        [] \<Rightarrow> (None, s)
      | (e, key) # rest \<Rightarrow>
          if e \<le> now
          then (let (r, recs1) = map_subscript key (records s);
                    v = value_str r;
                    recs2 = map_erase key recs1
                in (Some (read_after_erase freed key, v),
                    \<lparr>records = recs2, expiry_queue = rest\<rparr>))
          else (None, s))"

text \<open>
  The constructor calls \<open>set\<close> once per entry, in order. Each call reads the clock for
  itself: \<open>clock i\<close> is the instant the clock reports during the call for entry \<open>i\<close>.
\<close>

fun KVStorage_loop ::
  "int \<Rightarrow> (nat \<Rightarrow> time_point) \<Rightarrow> nat \<Rightarrow> (string \<times> string \<times> 32 word) list \<Rightarrow> KVStorage \<Rightarrow> KVStorage" where
  "KVStorage_loop sec clock i [] s = s"
| "KVStorage_loop sec clock i ((key, v, ttl) # entries) s =
     KVStorage_loop sec clock (Suc i) entries (set_kv sec (clock i) s key v ttl)"

definition KVStorage_ctor :: "int \<Rightarrow> (nat \<Rightarrow> time_point) \<Rightarrow> (string \<times> string \<times> 32 word) list \<Rightarrow> KVStorage" where
  "KVStorage_ctor sec clock entries = KVStorage_loop sec clock 0 entries empty_storage"

subsection \<open>Calls as steps\<close>

datatype Call =
    Call_set string string "32 word"
  | Call_remove string
  | Call_get string
  | Call_getManySorted string "32 word"
  | Call_removeOneExpiredEntry

datatype Returned =
    Ret_void
  | Ret_bool bool
  | Ret_value "string option"
  | Ret_list "(string \<times> string) list"
  | Ret_entry "(string \<times> string) option"

text \<open>
  One call as a step: what it returns and the engine it leaves. Besides the engine and
  its arguments a call sees the readings of the clock during the call (\<open>clock\<close>; a call
  that reads once sees \<open>clock 0\<close>) and, in \<open>removeOneExpiredEntry\<close>, the freed memory.
  \<open>get\<close> and \<open>getManySorted\<close> are \<open>const\<close> member functions: the engine after the call is
  the engine before it.
\<close>

fun exec ::
  "int \<Rightarrow> (string \<Rightarrow> string) \<Rightarrow> (nat \<Rightarrow> time_point) \<Rightarrow> KVStorage \<Rightarrow> Call
     \<Rightarrow> Returned \<times> KVStorage" where
  "exec sec freed clock s (Call_set key v ttl) = (Ret_void, set_kv sec (clock 0) s key v ttl)"
| "exec sec freed clock s (Call_remove key) =
     (case remove_kv s key of (b, s') \<Rightarrow> (Ret_bool b, s'))"
| "exec sec freed clock s (Call_get key) = (Ret_value (get (clock 0) s key), s)"
| "exec sec freed clock s (Call_getManySorted key count) =
     (Ret_list (getManySorted clock s key count), s)"
| "exec sec freed clock s Call_removeOneExpiredEntry =
     (case removeOneExpiredEntry freed (clock 0) s of (r, s') \<Rightarrow> (Ret_entry r, s'))"

text \<open>
  The engine after a sequence of calls, each with the instant of its call. Only the
  engines are kept, and the engine a call leaves depends neither on the freed memory nor
  on a second reading of the clock (\<open>snd_exec\<close> below).
\<close>

fun run :: "int \<Rightarrow> KVStorage \<Rightarrow> (time_point \<times> Call) list \<Rightarrow> KVStorage" where
  "run sec s [] = s"
| "run sec s ((now, c) # cs) = run sec (snd (exec sec id (steady now) s c)) cs"

subsection \<open>Invariant I1\<close>

definition expiry_pairs :: "(string \<times> Record) list \<Rightarrow> ExpiryEntry list" where
  \<comment> \<open>the pair (e, k) of every binding of k whose expiry is set to e\<close>
  "expiry_pairs m = List.map_filter (\<lambda>(k, r). map_option (\<lambda>e. (e, k)) (expiry r)) m"

definition I1 :: "KVStorage \<Rightarrow> bool" where
  "I1 s \<longleftrightarrow> set (expiry_queue s) = set (expiry_pairs (records s))"

subsection \<open>What the specification says, as definitions\<close>

text \<open>
  An entry is logically expired at an instant when its expiry is set and is at or before
  that instant.
\<close>

definition expired :: "time_point \<Rightarrow> Record \<Rightarrow> bool" where
  "expired now r = (case expiry r of None \<Rightarrow> False | Some e \<Rightarrow> e \<le> now)"

text \<open>
  GetManySorted in the specification's words: of the entries in ascending key order, those
  with a key strictly greater than the bound that are not expired, the first \<open>count\<close> of
  them, as (key, value) pairs.
\<close>

definition getManySorted_spec ::
  "time_point \<Rightarrow> (string \<times> Record) list \<Rightarrow> string \<Rightarrow> nat \<Rightarrow> (string \<times> string) list" where
  "getManySorted_spec now m boundKey count =
     take count (map (\<lambda>x. (fst x, value_str (snd x)))
       (filter (\<lambda>x. boundKey < fst x \<and> \<not> expired now (snd x)) m))"

text \<open>
  The same with every entry judged at the instant the clock reports when the scan reaches
  it: of the entries in key order, those that are not expired at their own reading, where
  read number \<open>i\<close> belongs to the entry with an expiry that has \<open>i\<close> such entries before
  it.
\<close>

fun live_at_visit ::
  "(nat \<Rightarrow> time_point) \<Rightarrow> nat \<Rightarrow> (string \<times> Record) list \<Rightarrow> (string \<times> Record) list" where
  "live_at_visit clock i [] = []"
| "live_at_visit clock i ((k, r) # m) =
     (case expiry r of
        None \<Rightarrow> (k, r) # live_at_visit clock i m
      | Some e \<Rightarrow>
          if expired (clock i) r then live_at_visit clock (Suc i) m
          else (k, r) # live_at_visit clock (Suc i) m)"

definition getManySorted_visit ::
  "(nat \<Rightarrow> time_point) \<Rightarrow> (string \<times> Record) list \<Rightarrow> string \<Rightarrow> nat \<Rightarrow> (string \<times> string) list" where
  "getManySorted_visit clock m boundKey count =
     take count (map (\<lambda>x. (fst x, value_str (snd x)))
       (live_at_visit clock 0 (filter (\<lambda>x. boundKey < fst x) m)))"

text \<open>
  The bulk constructor in the specification's words: the empty engine, then Set once per
  triple in the given order.
\<close>

definition KVStorage_by_set ::
  "int \<Rightarrow> (nat \<Rightarrow> time_point) \<Rightarrow> (string \<times> string \<times> 32 word) list \<Rightarrow> KVStorage" where
  "KVStorage_by_set sec clock entries =
     foldl (\<lambda>s (i, key, v, ttl). set_kv sec (clock i) s key v ttl) empty_storage
       (zip [0..<length entries] entries)"

section \<open>Facts about the containers\<close>

lemma set_set_insert: "set (set_insert x xs) = insert x (set xs)"
  by (induction xs) auto

lemma sorted_set_insert: "sorted_wrt (<) xs \<Longrightarrow> sorted_wrt (<) (set_insert x xs)"
  by (induction xs) (auto simp: set_set_insert)

lemma set_set_erase_subset: "set (set_erase x xs) \<subseteq> set xs"
  by (induction xs) auto

lemma sorted_set_erase:
  fixes xs :: "'a::linorder list"
  shows "sorted_wrt (<) xs \<Longrightarrow> sorted_wrt (<) (set_erase x xs)"
proof (induction xs)
  case Nil
  then show ?case by simp
next
  case (Cons y ys)
  then show ?case using set_set_erase_subset [of x ys] by auto
qed

lemma keys_map_assign: "fst ` set (map_assign k v m) = insert k (fst ` set m)"
  by (induction m) (force split: if_splits)+

lemma sorted_map_assign:
  "sorted_wrt (<) (map fst m) \<Longrightarrow> sorted_wrt (<) (map fst (map_assign k v m))"
proof (induction m)
  case Nil
  then show ?case by simp
next
  case (Cons b m)
  obtain k' v' where b: "b = (k', v')" by (cases b)
  have keys: "\<And>x. x \<in> set (map_assign k v m) \<Longrightarrow> fst x = k \<or> fst x \<in> fst ` set m"
    using keys_map_assign [of k v m] by auto
  from Cons show ?case
    by (auto simp: b dest!: keys)
qed

lemma set_map_erase_subset: "set (map_erase k m) \<subseteq> set m"
  by (induction m) (auto split: if_splits)

lemma sorted_map_erase:
  fixes m :: "('k::linorder \<times> 'v) list"
  shows "sorted_wrt (<) (map fst m) \<Longrightarrow> sorted_wrt (<) (map fst (map_erase k m))"
proof (induction m)
  case Nil
  then show ?case by simp
next
  case (Cons b m)
  obtain k' v' where b: "b = (k', v')" by (cases b)
  from Cons show ?case
    using set_map_erase_subset [of k m] by (auto simp: b)
qed

lemma map_find_None_iff: "map_find k m = None \<longleftrightarrow> k \<notin> fst ` set m"
  by (induction m) (force split: if_splits)+

lemma map_find_Some_mem: "map_find k m = Some v \<Longrightarrow> (k, v) \<in> set m"
  by (induction m) (auto split: if_splits)

lemma map_find_mem:
  fixes m :: "('k::linorder \<times> 'v) list"
  shows "sorted_wrt (<) (map fst m) \<Longrightarrow> (k, v) \<in> set m \<Longrightarrow> map_find k m = Some v"
  by (induction m) (force split: if_splits)+

lemma map_find_map_assign:
  "map_find k (map_assign k' v m) = (if k = k' then Some v else map_find k m)"
  by (induction m) auto

lemma map_find_map_erase_same:
  fixes m :: "('k::linorder \<times> 'v) list"
  shows "sorted_wrt (<) (map fst m) \<Longrightarrow> map_find k (map_erase k m) = None"
proof (induction m)
  case Nil
  then show ?case by simp
next
  case (Cons b m)
  obtain k' v' where b: "b = (k', v')" by (cases b)
  show ?case
  proof (cases "k' = k")
    case True
    with Cons.prems have "k \<notin> fst ` set m" by (force simp: b)
    with True show ?thesis by (simp add: b map_find_None_iff)
  next
    case False
    with Cons show ?thesis by (simp add: b)
  qed
qed

lemma map_find_map_erase_other:
  "k \<noteq> k' \<Longrightarrow> map_find k (map_erase k' m) = map_find k m"
  by (induction m) auto

section \<open>Every call keeps the containers well formed\<close>

lemma well_formed_empty_storage: "well_formed empty_storage"
  by (simp add: well_formed_def empty_storage_def)

lemma well_formed_set_kv: "well_formed s \<Longrightarrow> well_formed (set_kv sec now s key v ttl)"
  by (simp add: well_formed_def set_kv_def Let_def sorted_map_assign sorted_set_insert)

lemma well_formed_remove_kv: "well_formed s \<Longrightarrow> well_formed (snd (remove_kv s key))"
  by (simp add: well_formed_def remove_kv_def Let_def sorted_map_erase sorted_set_erase
      split: option.splits)

lemma well_formed_removeOneExpiredEntry:
  assumes "well_formed s"
  shows "well_formed (snd (removeOneExpiredEntry freed now s))"
proof (cases "expiry_queue s")
  case Nil
  with assms show ?thesis by (simp add: removeOneExpiredEntry_def)
next
  case (Cons x rest)
  obtain e key where x: "x = (e, key)" by (cases x)
  from assms Cons have rest: "sorted_wrt (<) rest"
    by (simp add: well_formed_def)
  from assms have recs: "sorted_wrt (<) (map fst (records s))"
    by (simp add: well_formed_def)
  show ?thesis
  proof (cases "e \<le> now")
    case True
    with Cons x rest recs show ?thesis
      by (simp add: removeOneExpiredEntry_def map_subscript_def well_formed_def
          sorted_map_erase sorted_map_assign split: option.splits)
  next
    case False
    with Cons x assms show ?thesis by (simp add: removeOneExpiredEntry_def)
  qed
qed

lemma well_formed_exec: "well_formed s \<Longrightarrow> well_formed (snd (exec sec freed clock s c))"
proof (cases c)
  case (Call_remove key)
  assume "well_formed s"
  then show ?thesis
    using well_formed_remove_kv [of s key] by (simp add: Call_remove case_prod_beta)
next
  case Call_removeOneExpiredEntry
  assume "well_formed s"
  then show ?thesis
    using well_formed_removeOneExpiredEntry [of s freed "clock 0"]
    by (simp add: Call_removeOneExpiredEntry case_prod_beta)
qed (simp_all add: well_formed_set_kv)

lemma well_formed_run: "well_formed s \<Longrightarrow> well_formed (run sec s cs)"
  by (induction cs arbitrary: s) (auto simp: well_formed_exec)

lemma snd_removeOneExpiredEntry:
  "snd (removeOneExpiredEntry freed now s) = snd (removeOneExpiredEntry freed' now s)"
  by (simp add: removeOneExpiredEntry_def case_prod_beta split: list.splits)

lemma snd_exec:
  "snd (exec sec freed clock s c) = snd (exec sec freed' (steady (clock 0)) s c)"
  using snd_removeOneExpiredEntry [of freed "clock 0" s freed']
  by (cases c) (simp_all add: steady_def case_prod_beta)

lemma to_int64_id: "- (2 ^ 63) \<le> x \<Longrightarrow> x < 2 ^ 63 \<Longrightarrow> to_int64 x = x"
  by (simp add: to_int64_def)

section \<open>Overwriting a key that has an expiry\<close>

text \<open>
  \<open>set\<close> assigns \<open>records_[key]\<close> and inserts the new pair into \<open>expiry_queue_\<close>; it never
  erases from \<open>expiry_queue_\<close>. Whatever pair the queue held stays in it.
\<close>

lemma expiry_queue_set_kv_superset:
  "set (expiry_queue s) \<subseteq> set (expiry_queue (set_kv sec now s key v ttl))"
  by (auto simp: set_kv_def Let_def set_set_insert)

text \<open>
  C1. Set on a key that is stored with expiry e removes the pair (e, key) from the Expiry
  Index before inserting the new pair. The code at the input
  \<open>set("k", "v1", 5); set("k", "v2", 0)\<close> (and with a new ttl of 10), the clock at 0 with
  one tick per second: the pair (5, k) of the first call is still in the queue after the
  second.
\<close>

theorem set_kv_overwrite_keeps_old_pair:
  "map_find ''k'' (records (set_kv 1 0 empty_storage ''k'' ''v1'' 5))
     = Some \<lparr>value_str = ''v1'', expiry = Some 5\<rparr>
   \<and> expiry_queue (set_kv 1 0 empty_storage ''k'' ''v1'' 5) = [(5, ''k'')]
   \<and> expiry_queue (set_kv 1 0 (set_kv 1 0 empty_storage ''k'' ''v1'' 5) ''k'' ''v2'' 0)
     = [(5, ''k'')]
   \<and> expiry_queue (set_kv 1 0 (set_kv 1 0 empty_storage ''k'' ''v1'' 5) ''k'' ''v2'' 10)
     = [(5, ''k''), (10, ''k'')]"
  by (simp add: set_kv_def empty_storage_def seconds_def to_int64_def)

text \<open>
  C2. Invariant I1 (a key is stored with expiry e exactly when the pair (e, key) is in the
  Expiry Index) holds in every state reachable from the empty engine. The code after
  \<open>set("k", "v1", 5); set("k", "v2", 0)\<close>: the record of k has no expiry and the queue
  holds (5, k), so I1 is false in a reachable state.
\<close>

theorem I1_broken_after_overwrite:
  "run 1 empty_storage [(0, Call_set ''k'' ''v1'' 5), (0, Call_set ''k'' ''v2'' 0)]
     = \<lparr>records = [(''k'', \<lparr>value_str = ''v2'', expiry = None\<rparr>)], expiry_queue = [(5, ''k'')]\<rparr>
   \<and> \<not> I1 (run 1 empty_storage [(0, Call_set ''k'' ''v1'' 5), (0, Call_set ''k'' ''v2'' 0)])"
  by (simp add: set_kv_def empty_storage_def seconds_def to_int64_def steady_def I1_def
      expiry_pairs_def)

text \<open>
  C3. In every reachable state RemoveOneExpiredEntry returns none exactly when no stored
  entry has an expiry at or before the current instant, and a returned pair is the stored
  entry of smallest expiry with its value. The code in two reachable states, at instant 6:
  after \<open>set("k", "v1", 5); set("k", "v2", 0)\<close> the only stored entry never expires, and
  the call returns (k, v2) and erases it; after
  \<open>set("k1", "v1", 5); set("k1", "v1", 100); set("k2", "v2", 10)\<close> the stored expiries are
  100 and 10, none of them reached, and the call returns (k1, v1).
\<close>

theorem removeOneExpiredEntry_returns_live_entry:
  "records (run 1 empty_storage [(0, Call_set ''k'' ''v1'' 5), (0, Call_set ''k'' ''v2'' 0)])
     = [(''k'', \<lparr>value_str = ''v2'', expiry = None\<rparr>)]
   \<and> removeOneExpiredEntry freed 6
       (run 1 empty_storage [(0, Call_set ''k'' ''v1'' 5), (0, Call_set ''k'' ''v2'' 0)])
     = (Some (''k'', ''v2''), empty_storage)
   \<and> records (run 1 empty_storage
         [(0, Call_set ''k1'' ''v1'' 5), (0, Call_set ''k1'' ''v1'' 100), (0, Call_set ''k2'' ''v2'' 10)])
     = [(''k1'', \<lparr>value_str = ''v1'', expiry = Some 100\<rparr>),
        (''k2'', \<lparr>value_str = ''v2'', expiry = Some 10\<rparr>)]
   \<and> fst (removeOneExpiredEntry freed 6 (run 1 empty_storage
         [(0, Call_set ''k1'' ''v1'' 5), (0, Call_set ''k1'' ''v1'' 100), (0, Call_set ''k2'' ''v2'' 10)]))
     = Some (''k1'', ''v1'')"
  by (simp add: set_kv_def empty_storage_def seconds_def to_int64_def steady_def
      removeOneExpiredEntry_def read_after_erase_def map_subscript_def)

text \<open>
  C4. After Remove(k) has returned true, Get(k) returns none and, as long as k is not set
  again, RemoveOneExpiredEntry never returns k. The code after
  \<open>set("k", "v1", 5); set("k", "v2", 0); remove("k")\<close>: remove returns true and Get(k) is
  none, but the queue still holds (5, k), and at instant 6 RemoveOneExpiredEntry returns
  k, with the empty string as its value.
\<close>

theorem removeOneExpiredEntry_returns_removed_key:
  "exec 1 freed (steady 0)
       (run 1 empty_storage [(0, Call_set ''k'' ''v1'' 5), (0, Call_set ''k'' ''v2'' 0)])
       (Call_remove ''k'')
     = (Ret_bool True, \<lparr>records = [], expiry_queue = [(5, ''k'')]\<rparr>)
   \<and> get 0 \<lparr>records = [], expiry_queue = [(5, ''k'')]\<rparr> ''k'' = None
   \<and> exec 1 freed (steady 6) \<lparr>records = [], expiry_queue = [(5, ''k'')]\<rparr>
       Call_removeOneExpiredEntry
     = (Ret_entry (Some (''k'', '''')), empty_storage)"
  by (simp add: set_kv_def empty_storage_def seconds_def to_int64_def steady_def
      removeOneExpiredEntry_def read_after_erase_def map_subscript_def remove_kv_def get_def
      default_Record_def)

section \<open>Invariant I1 away from the overwrite\<close>

text \<open>
  The calls other than a \<open>set\<close> on a key that is stored with an expiry keep I1, and in
  a state where I1 holds \<open>removeOneExpiredEntry\<close> finds an expired entry exactly when
  there is one, and returns the value of the entry of least expiry, with what the read
  after the erase gives for its key.
\<close>

lemma map_find_set_kv:
  "map_find k (records (set_kv sec now s key v ttl)) =
     (if k = key
      then Some \<lparr>value_str = v,
                  expiry = (if ttl \<noteq> 0 then Some (to_int64 (now + seconds sec ttl))
                            else None)\<rparr>
      else map_find k (records s))"
  by (simp add: set_kv_def Let_def map_find_map_assign)

lemma mem_expiry_pairs:
  "(e, k) \<in> set (expiry_pairs m) \<longleftrightarrow> (\<exists>r. (k, r) \<in> set m \<and> expiry r = Some e)"
proof (induction m)
  case Nil
  then show ?case by (simp add: expiry_pairs_def)
next
  case (Cons b m)
  obtain k' r' where b: "b = (k', r')" by (cases b)
  from Cons show ?case
    by (cases "expiry r'") (auto simp: b expiry_pairs_def)
qed

lemma mem_sorted_map_find:
  fixes m :: "('k::linorder \<times> 'v) list"
  assumes "sorted_wrt (<) (map fst m)"
  shows "(k, r) \<in> set m \<longleftrightarrow> map_find k m = Some r"
  using assms map_find_mem [of m k r] map_find_Some_mem [of k m r] by blast

lemma map_find_map_erase:
  fixes m :: "('k::linorder \<times> 'v) list"
  assumes "sorted_wrt (<) (map fst m)"
  shows "map_find k (map_erase k' m) = (if k = k' then None else map_find k m)"
  using assms by (simp add: map_find_map_erase_same map_find_map_erase_other)

lemma set_set_erase:
  fixes xs :: "'a::linorder list"
  assumes "sorted_wrt (<) xs"
  shows "set (set_erase x xs) = set xs - {x}"
  using assms by (induction xs) auto

lemma I1_iff_find:
  assumes "well_formed s"
  shows "I1 s \<longleftrightarrow>
     (\<forall>e k. (e, k) \<in> set (expiry_queue s)
        \<longleftrightarrow> (\<exists>r. map_find k (records s) = Some r \<and> expiry r = Some e))"
proof -
  from assms have sorted: "sorted_wrt (<) (map fst (records s))"
    by (simp add: well_formed_def)
  have "I1 s \<longleftrightarrow> (\<forall>e k. (e, k) \<in> set (expiry_queue s) \<longleftrightarrow> (e, k) \<in> set (expiry_pairs (records s)))"
    by (auto simp: I1_def)
  then show ?thesis
    by (simp add: mem_expiry_pairs mem_sorted_map_find [OF sorted])
qed

lemma expiry_queue_set_kv:
  "expiry_queue (set_kv sec now s key v ttl) =
     (if ttl \<noteq> 0 then set_insert (to_int64 (now + seconds sec ttl), key) (expiry_queue s)
      else expiry_queue s)"
  by (simp add: set_kv_def Let_def)

lemma I1_set_kv:
  assumes wf: "well_formed s" and inv: "I1 s"
    and fresh: "\<forall>r. map_find key (records s) = Some r \<longrightarrow> expiry r = None"
  shows "I1 (set_kv sec now s key v ttl)"
proof -
  note old = inv [unfolded I1_iff_find [OF wf], rule_format]
  have "(e, k) \<in> set (expiry_queue (set_kv sec now s key v ttl))
      \<longleftrightarrow> (\<exists>r. map_find k (records (set_kv sec now s key v ttl)) = Some r \<and> expiry r = Some e)"
    for e k
  proof (cases "k = key")
    case True
    from fresh have "(e, key) \<notin> set (expiry_queue s)"
      by (auto simp: old)
    with True show ?thesis
      by (auto simp: expiry_queue_set_kv map_find_set_kv set_set_insert)
  next
    case False
    then show ?thesis
      by (auto simp: expiry_queue_set_kv map_find_set_kv set_set_insert old)
  qed
  then show ?thesis
    unfolding I1_iff_find [OF well_formed_set_kv [OF wf]] by blast
qed

lemma I1_remove_kv:
  assumes wf: "well_formed s" and inv: "I1 s"
  shows "I1 (snd (remove_kv s key))"
proof (cases "map_find key (records s)")
  case None
  with inv show ?thesis by (simp add: remove_kv_def)
next
  case (Some r)
  note old = inv [unfolded I1_iff_find [OF wf], rule_format]
  from wf have sorted: "sorted_wrt (<) (map fst (records s))"
    and sortedq: "sorted_wrt (<) (expiry_queue s)"
    by (simp_all add: well_formed_def)
  let ?s' = "snd (remove_kv s key)"
  have recs': "records ?s' = map_erase key (records s)"
    using Some by (simp add: remove_kv_def Let_def split: option.splits)
  have queue': "set (expiry_queue ?s') =
      (case expiry r of Some e \<Rightarrow> set (expiry_queue s) - {(e, key)} | None \<Rightarrow> set (expiry_queue s))"
    using Some by (simp add: remove_kv_def Let_def set_set_erase [OF sortedq] split: option.splits)
  have "(e, k) \<in> set (expiry_queue ?s')
      \<longleftrightarrow> (\<exists>r. map_find k (records ?s') = Some r \<and> expiry r = Some e)" for e k
  proof (cases "k = key")
    case True
    have "(e, key) \<notin> set (expiry_queue ?s')"
      using Some by (auto simp: queue' old split: option.splits)
    with True show ?thesis
      by (simp add: recs' map_find_map_erase [OF sorted])
  next
    case False
    then show ?thesis
      by (auto simp: recs' queue' map_find_map_erase [OF sorted] old split: option.splits)
  qed
  then show ?thesis
    unfolding I1_iff_find [OF well_formed_remove_kv [OF wf]] by blast
qed

lemma removeOneExpiredEntry_due:
  assumes wf: "well_formed s" and inv: "I1 s"
    and queue: "expiry_queue s = (e, key) # rest" and due: "e \<le> now"
  shows "\<exists>r. map_find key (records s) = Some r \<and> expiry r = Some e
           \<and> removeOneExpiredEntry freed now s
               = (Some (read_after_erase freed key, value_str r),
                  \<lparr>records = map_erase key (records s), expiry_queue = rest\<rparr>)"
proof -
  note old = inv [unfolded I1_iff_find [OF wf], rule_format]
  from queue have "(e, key) \<in> set (expiry_queue s)" by simp
  then obtain r where r: "map_find key (records s) = Some r" "expiry r = Some e"
    by (auto simp: old)
  with queue due have "removeOneExpiredEntry freed now s
      = (Some (read_after_erase freed key, value_str r), \<lparr>records = map_erase key (records s), expiry_queue = rest\<rparr>)"
    by (simp add: removeOneExpiredEntry_def map_subscript_def)
  with r show ?thesis by blast
qed

lemma removeOneExpiredEntry_not_due:
  assumes "expiry_queue s = [] \<or> (\<exists>e key rest. expiry_queue s = (e, key) # rest \<and> now < e)"
  shows "removeOneExpiredEntry freed now s = (None, s)"
  using assms by (auto simp: removeOneExpiredEntry_def)

lemma queue_head_least:
  fixes q :: "ExpiryEntry list"
  assumes "sorted_wrt (<) q" and "q = (e, key) # rest" and "(e', k') \<in> set q"
  shows "e \<le> e'"
proof -
  from assms have "(e', k') = (e, key) \<or> (e, key) < (e', k')" by auto
  then show ?thesis by auto
qed

lemma I1_removeOneExpiredEntry:
  assumes wf: "well_formed s" and inv: "I1 s"
  shows "I1 (snd (removeOneExpiredEntry freed now s))"
proof (cases "expiry_queue s = [] \<or> (\<exists>e key rest. expiry_queue s = (e, key) # rest \<and> now < e)")
  case True
  with inv show ?thesis by (simp add: removeOneExpiredEntry_not_due)
next
  case False
  then obtain e key rest where queue: "expiry_queue s = (e, key) # rest" and due: "e \<le> now"
    by (cases "expiry_queue s") (auto simp: not_less)
  from removeOneExpiredEntry_due [OF wf inv queue due, of freed]
  obtain r where r: "map_find key (records s) = Some r" "expiry r = Some e"
    and step: "removeOneExpiredEntry freed now s
      = (Some (read_after_erase freed key, value_str r), \<lparr>records = map_erase key (records s), expiry_queue = rest\<rparr>)"
    by blast
  note old = inv [unfolded I1_iff_find [OF wf], rule_format]
  from wf have sorted: "sorted_wrt (<) (map fst (records s))"
    and sortedq: "sorted_wrt (<) (expiry_queue s)"
    by (simp_all add: well_formed_def)
  from sortedq queue have rest: "set rest = set (expiry_queue s) - {(e, key)}"
    by auto
  let ?s' = "snd (removeOneExpiredEntry freed now s)"
  have "(e', k) \<in> set (expiry_queue ?s')
      \<longleftrightarrow> (\<exists>r. map_find k (records ?s') = Some r \<and> expiry r = Some e')" for e' k
  proof (cases "k = key")
    case True
    have "(e', key) \<notin> set rest"
      using r by (auto simp: rest old)
    with True show ?thesis
      by (simp add: step map_find_map_erase [OF sorted])
  next
    case False
    then show ?thesis
      by (auto simp: step rest map_find_map_erase [OF sorted] old)
  qed
  then show ?thesis
    unfolding I1_iff_find [OF well_formed_removeOneExpiredEntry [OF wf]] by blast
qed

lemma removeOneExpiredEntry_under_I1:
  assumes wf: "well_formed s" and inv: "I1 s"
  shows "(fst (removeOneExpiredEntry freed now s) = None
            \<longleftrightarrow> (\<forall>k r. map_find k (records s) = Some r \<longrightarrow> \<not> expired now r))
       \<and> (fst (removeOneExpiredEntry freed now s) = Some (k, v)
            \<longrightarrow> (\<exists>key r e. k = read_after_erase freed key
                   \<and> map_find key (records s) = Some r \<and> value_str r = v
                   \<and> expiry r = Some e \<and> e \<le> now
                   \<and> (\<forall>k' r' e'. map_find k' (records s) = Some r' \<and> expiry r' = Some e'
                        \<longrightarrow> e \<le> e')))"
proof (cases "expiry_queue s")
  case Nil
  note old = inv [unfolded I1_iff_find [OF wf], rule_format]
  have "\<not> expired now r" if "map_find k (records s) = Some r" for k r
  proof (cases "expiry r")
    case None
    then show ?thesis by (simp add: expired_def)
  next
    case (Some e)
    with that have "(e, k) \<in> set (expiry_queue s)" by (auto simp: old)
    with Nil show ?thesis by simp
  qed
  with Nil show ?thesis by (simp add: removeOneExpiredEntry_def)
next
  case (Cons x rest)
  obtain e key where x: "x = (e, key)" by (cases x)
  note queue = Cons [unfolded x]
  note old = inv [unfolded I1_iff_find [OF wf], rule_format]
  from wf have sortedq: "sorted_wrt (<) (expiry_queue s)"
    by (simp add: well_formed_def)
  have least: "e \<le> e'" if "map_find k' (records s) = Some r'" "expiry r' = Some e'" for k' r' e'
  proof -
    from that have "(e', k') \<in> set (expiry_queue s)" by (auto simp: old)
    with sortedq queue show ?thesis by (rule queue_head_least)
  qed
  show ?thesis
  proof (cases "e \<le> now")
    case True
    from removeOneExpiredEntry_due [OF wf inv queue True, of freed]
    obtain r where r: "map_find key (records s) = Some r" "expiry r = Some e"
      and step: "removeOneExpiredEntry freed now s
        = (Some (read_after_erase freed key, value_str r), \<lparr>records = map_erase key (records s), expiry_queue = rest\<rparr>)"
      by blast
    from r True have "expired now r" by (simp add: expired_def)
    with r least True show ?thesis
      by (auto simp: step intro!: exI [of _ key])
  next
    case False
    then have none: "removeOneExpiredEntry freed now s = (None, s)"
      using queue by (simp add: removeOneExpiredEntry_def)
    have "\<not> expired now r" if "map_find k (records s) = Some r" for k r
    proof (cases "expiry r")
      case None
      then show ?thesis by (simp add: expired_def)
    next
      case (Some e')
      with that least have "e \<le> e'" by blast
      with False Some show ?thesis by (simp add: expired_def)
    qed
    then show ?thesis by (simp add: none)
  qed
qed

lemma I1_exec:
  assumes wf: "well_formed s" and inv: "I1 s"
    and fresh: "\<forall>key v ttl r. c = Call_set key v ttl \<and> map_find key (records s) = Some r
                  \<longrightarrow> expiry r = None"
  shows "I1 (snd (exec sec freed clock s c))"
proof (cases c)
  case (Call_set key v ttl)
  with fresh have "\<forall>r. map_find key (records s) = Some r \<longrightarrow> expiry r = None" by blast
  with wf inv show ?thesis by (simp add: Call_set I1_set_kv)
next
  case (Call_remove key)
  with I1_remove_kv [OF wf inv, of key] show ?thesis by (simp add: case_prod_beta)
next
  case Call_removeOneExpiredEntry
  with I1_removeOneExpiredEntry [OF wf inv, of freed "clock 0"] show ?thesis
    by (simp add: case_prod_beta)
qed (simp_all add: inv)

lemma get_after_remove_kv:
  assumes "well_formed s"
  shows "get now (snd (remove_kv s key)) key = None"
proof (cases "map_find key (records s)")
  case None
  then show ?thesis by (simp add: remove_kv_def get_def)
next
  case (Some r)
  from assms have "map_find key (map_erase key (records s)) = None"
    by (simp add: well_formed_def map_find_map_erase_same)
  with Some show ?thesis
    by (simp add: remove_kv_def get_def Let_def split: option.splits)
qed

section \<open>Get\<close>

text \<open>
  C5, as the code has it. Get(k) returns none when k is absent from the Record Store; none
  when k is stored with an expiry at or before the current instant, and the entry stays
  stored; the stored value otherwise. After Set(k, v, ttl) at instant \<open>now\<close> with ttl > 0,
  where \<open>now\<close> + ttl seconds is an instant the clock's 64-bit tick counter can hold,
  Get(k) is v at every instant strictly before \<open>now\<close> + ttl seconds and none from that
  instant on.
\<close>

theorem get_returns:
  assumes "well_formed s"
  shows "(key \<notin> fst ` set (records s) \<longrightarrow> get now s key = None)
       \<and> ((key, r) \<in> set (records s) \<and> expiry r = Some e \<and> e \<le> now
            \<longrightarrow> get now s key = None \<and> snd (exec sec freed (steady now) s (Call_get key)) = s)
       \<and> ((key, r) \<in> set (records s) \<and> (expiry r = None \<or> (\<exists>e. expiry r = Some e \<and> now < e))
            \<longrightarrow> get now s key = Some (value_str r))
       \<and> (ttl \<noteq> 0 \<and> - (2 ^ 63) \<le> now + seconds sec ttl \<and> now + seconds sec ttl < 2 ^ 63
            \<longrightarrow> get t (set_kv sec now s key v ttl) key
                 = (if t < now + seconds sec ttl then Some v else None))"
proof -
  from assms have sorted: "sorted_wrt (<) (map fst (records s))"
    by (simp add: well_formed_def)
  have absent: "key \<notin> fst ` set (records s) \<longrightarrow> get now s key = None"
    by (simp add: get_def map_find_None_iff [symmetric])
  have found: "map_find key (records s) = Some r" if "(key, r) \<in> set (records s)"
    using sorted that by (rule map_find_mem)
  have expired: "(key, r) \<in> set (records s) \<and> expiry r = Some e \<and> e \<le> now
      \<longrightarrow> get now s key = None \<and> snd (exec sec freed (steady now) s (Call_get key)) = s"
    using found by (simp add: get_def)
  have live: "(key, r) \<in> set (records s) \<and> (expiry r = None \<or> (\<exists>e. expiry r = Some e \<and> now < e))
      \<longrightarrow> get now s key = Some (value_str r)"
    using found by (auto simp: get_def)
  have boundary: "ttl \<noteq> 0 \<and> - (2 ^ 63) \<le> now + seconds sec ttl \<and> now + seconds sec ttl < 2 ^ 63
      \<longrightarrow> get t (set_kv sec now s key v ttl) key
          = (if t < now + seconds sec ttl then Some v else None)"
    by (simp add: get_def map_find_set_kv to_int64_id)
  from absent expired live boundary show ?thesis by blast
qed

theorem get_returns_witness:
  "well_formed (set_kv 1 0 empty_storage ''temp'' ''value'' 5)
   \<and> (''temp'', \<lparr>value_str = ''value'', expiry = Some 5\<rparr>)
       \<in> set (records (set_kv 1 0 empty_storage ''temp'' ''value'' 5))
   \<and> ''other'' \<notin> fst ` set (records (set_kv 1 0 empty_storage ''temp'' ''value'' 5))
   \<and> - (2 ^ 63) \<le> 0 + seconds 1 5 \<and> 0 + seconds 1 5 < 2 ^ 63
   \<and> get 4 (set_kv 1 0 empty_storage ''temp'' ''value'' 5) ''other'' = None
   \<and> get 4 (set_kv 1 0 empty_storage ''temp'' ''value'' 5) ''temp'' = Some ''value''
   \<and> get 5 (set_kv 1 0 empty_storage ''temp'' ''value'' 5) ''temp'' = None
   \<and> get 6 (set_kv 1 0 empty_storage ''temp'' ''value'' 5) ''temp'' = None"
proof -
  let ?s = "set_kv 1 0 empty_storage ''temp'' ''value'' 5"
  let ?r = "\<lparr>value_str = ''value'', expiry = Some (5::int)\<rparr>"
  have wf: "well_formed ?s"
    by (simp add: well_formed_set_kv well_formed_empty_storage)
  have mem: "(''temp'', ?r) \<in> set (records ?s)"
    by (simp add: set_kv_def empty_storage_def seconds_def to_int64_def)
  have absent: "''other'' \<notin> fst ` set (records ?s)"
    by (simp add: set_kv_def empty_storage_def seconds_def to_int64_def)
  have lower: "- (2 ^ 63) \<le> 0 + seconds 1 5" and upper: "0 + seconds 1 5 < 2 ^ 63"
    by (simp_all add: seconds_def)
  have other: "get 4 ?s ''other'' = None"
    using get_returns [OF wf, where key = "''other''" and now = 4] absent by blast
  have before: "get 4 ?s ''temp'' = Some ''value''"
    using get_returns [OF wf, where key = "''temp''" and now = 4 and r = ?r] mem by simp
  have boundary: "get 5 ?s ''temp'' = None"
    using get_returns [OF well_formed_empty_storage,
        where key = "''temp''" and now = 0 and sec = 1 and ttl = 5 and t = 5 and v = "''value''"]
      lower upper
    by (simp add: seconds_def)
  have after: "get 6 ?s ''temp'' = None"
    using get_returns [OF wf, where key = "''temp''" and now = 6 and r = ?r and e = 5] mem
    by simp
  show ?thesis
    using wf mem absent lower upper other before boundary after by (intro conjI)
qed

text \<open>
  C5 as the claim has it, with no bound on the instant: the repository's clock counts
  nanoseconds in a signed 64-bit integer, and a Set with ttl 5 three ticks before the last
  instant the counter holds stores an expiry far in the past. The instant of the Set is
  strictly before insertion-time + 5 seconds, and Get at that instant returns none.
\<close>

theorem get_returns_counterexample:
  "(9223372036854775805 :: int) < 9223372036854775805 + seconds 1000000000 5
   \<and> get 9223372036854775805
       (set_kv 1000000000 9223372036854775805 empty_storage ''k'' ''v'' 5) ''k'' = None"
  by (simp add: get_def set_kv_def empty_storage_def seconds_def to_int64_def)

section \<open>GetManySorted\<close>

lemma getManySorted_loop_take:
  "length result \<le> count \<Longrightarrow>
   getManySorted_loop clock i count it result =
     result @ take (count - length result)
       (map (\<lambda>x. (fst x, value_str (snd x))) (live_at_visit clock i it))"
proof (induction it arbitrary: i result)
  case Nil
  then show ?case by simp
next
  case (Cons b it)
  obtain k r where b: "b = (k, r)" by (cases b)
  show ?case
  proof (cases "length result < count")
    case False
    with Cons.prems show ?thesis by (simp add: b)
  next
    case less: True
    then have room: "length (result @ [(k, value_str r)]) \<le> count" by simp
    show ?thesis
    proof (cases "expiry r")
      case None
      with Cons.IH [OF room, of i] less show ?thesis
        by (simp add: b Suc_diff_Suc take_Cons')
    next
      case (Some e)
      show ?thesis
      proof (cases "clock i < e")
        case True
        with Some have "\<not> expired (clock i) r" by (simp add: expired_def)
        with Cons.IH [OF room, of "Suc i"] less Some True show ?thesis
          by (simp add: b Suc_diff_Suc take_Cons')
      next
        case False
        with Some have "expired (clock i) r" by (simp add: expired_def)
        with Cons.IH [OF Cons.prems, of "Suc i"] less Some False show ?thesis
          by (simp add: b)
      qed
    qed
  qed
qed

lemma live_at_visit_steady:
  "live_at_visit (steady now) i m = filter (\<lambda>x. \<not> expired now (snd x)) m"
proof (induction m arbitrary: i)
  case Nil
  then show ?case by simp
next
  case (Cons b m)
  obtain k r where b: "b = (k, r)" by (cases b)
  from Cons [of i] Cons [of "Suc i"] show ?case
    by (cases "expiry r") (simp_all add: b steady_def expired_def)
qed

lemma set_live_at_visit: "set (live_at_visit clock i m) \<subseteq> set m"
proof (induction m arbitrary: i)
  case Nil
  then show ?case by simp
next
  case (Cons b m)
  obtain k r where b: "b = (k, r)" by (cases b)
  from Cons [of i] Cons [of "Suc i"] show ?case
    by (cases "expiry r") (auto simp: b)
qed

lemma sorted_live_at_visit:
  "sorted_wrt (<) (map fst m) \<Longrightarrow> sorted_wrt (<) (map fst (live_at_visit clock i m))"
proof (induction m arbitrary: i)
  case Nil
  then show ?case by simp
next
  case (Cons b m)
  obtain k r where b: "b = (k, r)" by (cases b)
  from Cons.prems have above: "\<forall>x\<in>set m. k < fst x" and sorted: "sorted_wrt (<) (map fst m)"
    by (auto simp: b)
  from above have "\<forall>x\<in>set (live_at_visit clock j m). k < fst x" for j
    using set_live_at_visit [of clock j m] by blast
  with Cons.IH [OF sorted] show ?case
    by (cases "expiry r") (simp_all add: b)
qed

lemma filter_greater_all:
  fixes m :: "('k::linorder \<times> 'v) list"
  shows "\<forall>x\<in>set m. key < fst x \<Longrightarrow> filter (\<lambda>x. key < fst x) m = m"
  by (induction m) auto

lemma lower_bound_skip:
  fixes m :: "('k::linorder \<times> 'v) list"
  assumes "sorted_wrt (<) (map fst m)"
  shows "(case lower_bound key m of
            [] \<Rightarrow> []
          | (k, r) # rest \<Rightarrow> if k = key then rest else (k, r) # rest)
         = filter (\<lambda>x. key < fst x) m"
  using assms
proof (induction m)
  case Nil
  then show ?case by simp
next
  case (Cons b m)
  obtain k' v' where b: "b = (k', v')" by (cases b)
  from Cons.prems have above: "\<forall>x\<in>set m. k' < fst x" and sorted: "sorted_wrt (<) (map fst m)"
    by (auto simp: b)
  consider (less) "k' < key" | (eq) "k' = key" | (greater) "key < k'"
    by (cases k' key rule: linorder_cases) auto
  then show ?case
  proof cases
    case less
    with Cons.IH [OF sorted] show ?thesis by (simp add: b)
  next
    case eq
    with above have "filter (\<lambda>x. key < fst x) m = m" by (simp add: filter_greater_all)
    with eq show ?thesis by (simp add: b)
  next
    case greater
    with above have "\<forall>x\<in>set m. key < fst x" by auto
    then have "filter (\<lambda>x. key < fst x) m = m" by (rule filter_greater_all)
    with greater show ?thesis by (auto simp: b)
  qed
qed

lemma getManySorted_eq_visit:
  assumes "well_formed s"
  shows "getManySorted clock s boundKey count
         = getManySorted_visit clock (records s) boundKey (unat count)"
proof -
  from assms have sorted: "sorted_wrt (<) (map fst (records s))"
    by (simp add: well_formed_def)
  define it where "it = lower_bound boundKey (records s)"
  have "(case it of [] \<Rightarrow> it | (k, r) # rest \<Rightarrow> if k = boundKey then rest else it)
      = (case it of [] \<Rightarrow> [] | (k, r) # rest \<Rightarrow> if k = boundKey then rest else (k, r) # rest)"
    by (simp split: list.splits)
  also have "\<dots> = filter (\<lambda>x. boundKey < fst x) (records s)"
    unfolding it_def using sorted by (rule lower_bound_skip)
  finally have position:
    "(case it of [] \<Rightarrow> it | (k, r) # rest \<Rightarrow> if k = boundKey then rest else it)
      = filter (\<lambda>x. boundKey < fst x) (records s)" .
  have "getManySorted clock s boundKey count
      = getManySorted_loop clock 0 (unat count) (filter (\<lambda>x. boundKey < fst x) (records s)) []"
    unfolding getManySorted_def Let_def it_def [symmetric] position ..
  also have "\<dots> = getManySorted_visit clock (records s) boundKey (unat count)"
    by (simp add: getManySorted_loop_take getManySorted_visit_def)
  finally show ?thesis .
qed

lemma getManySorted_visit_steady:
  "getManySorted_visit (steady now) m boundKey count = getManySorted_spec now m boundKey count"
  by (simp add: getManySorted_visit_def getManySorted_spec_def live_at_visit_steady
      conj_commute)

lemma sorted_getManySorted_visit:
  assumes "sorted_wrt (<) (map fst m)"
  shows "sorted_wrt (<) (map fst (getManySorted_visit clock m boundKey count))"
proof -
  let ?live = "live_at_visit clock 0 (filter (\<lambda>x. boundKey < fst x) m)"
  from assms have "sorted_wrt (<) (map fst (filter (\<lambda>x. boundKey < fst x) m))"
    by (simp add: sorted_wrt_map sorted_wrt_filter)
  then have "sorted_wrt (<) (map fst ?live)"
    by (rule sorted_live_at_visit)
  then have "sorted_wrt (<) (take count (map fst ?live))"
    by (rule sorted_wrt_take)
  then show ?thesis
    by (simp add: getManySorted_visit_def take_map comp_def)
qed

lemma keys_getManySorted_visit:
  assumes "k \<in> fst ` set (getManySorted_visit clock m boundKey count)"
  shows "boundKey < k"
proof -
  from assms obtain x where
    "x \<in> set (live_at_visit clock 0 (filter (\<lambda>x. boundKey < fst x) m))" and "k = fst x"
    by (auto simp: getManySorted_visit_def dest!: in_set_takeD)
  with set_live_at_visit [of clock 0 "filter (\<lambda>x. boundKey < fst x) m"] show ?thesis
    by auto
qed

text \<open>
  C6, as the code has it. GetManySorted(boundKey, count) returns, in strictly ascending
  key order, the (key, value) pairs of the first up to count entries with a key strictly
  greater than boundKey that are not expired at the instant the clock reports when the
  scan reaches them (one reading for every visited entry with an expiry). boundKey itself
  is never returned, expired entries are skipped and do not count, fewer than count
  results mean that every such entry was returned, and count = 0 gives the empty list.
  When the clock reports one instant throughout the call, the entries returned are the
  ones not expired at that instant.
\<close>

theorem getManySorted_returns:
  assumes "well_formed s"
  shows "getManySorted clock s boundKey count
           = getManySorted_visit clock (records s) boundKey (unat count)
       \<and> getManySorted (steady now) s boundKey count
           = getManySorted_spec now (records s) boundKey (unat count)
       \<and> sorted_wrt (<) (map fst (getManySorted clock s boundKey count))
       \<and> boundKey \<notin> fst ` set (getManySorted clock s boundKey count)
       \<and> length (getManySorted clock s boundKey count) \<le> unat count
       \<and> (length (getManySorted clock s boundKey count) < unat count
            \<longrightarrow> getManySorted clock s boundKey count
                 = map (\<lambda>x. (fst x, value_str (snd x)))
                     (live_at_visit clock 0 (filter (\<lambda>x. boundKey < fst x) (records s))))
       \<and> getManySorted clock s boundKey 0 = []"
proof -
  from assms have sorted: "sorted_wrt (<) (map fst (records s))"
    by (simp add: well_formed_def)
  note eq = getManySorted_eq_visit [OF assms]
  have steady: "getManySorted (steady now) s boundKey count
      = getManySorted_spec now (records s) boundKey (unat count)"
    unfolding eq by (rule getManySorted_visit_steady)
  have ascending: "sorted_wrt (<) (map fst (getManySorted clock s boundKey count))"
    unfolding eq using sorted by (rule sorted_getManySorted_visit)
  have exclusive: "boundKey \<notin> fst ` set (getManySorted clock s boundKey count)"
    unfolding eq using keys_getManySorted_visit [of boundKey clock "records s" boundKey] by auto
  have bounded: "length (getManySorted clock s boundKey count) \<le> unat count"
    unfolding eq by (simp add: getManySorted_visit_def)
  have exhausted: "length (getManySorted clock s boundKey count) < unat count
      \<longrightarrow> getManySorted clock s boundKey count
          = map (\<lambda>x. (fst x, value_str (snd x)))
              (live_at_visit clock 0 (filter (\<lambda>x. boundKey < fst x) (records s)))"
    unfolding eq by (simp add: getManySorted_visit_def)
  have zero: "getManySorted clock s boundKey 0 = []"
    unfolding eq by (simp add: getManySorted_visit_def)
  from eq steady ascending exclusive bounded exhausted zero show ?thesis by blast
qed

theorem getManySorted_returns_witness:
  "well_formed (run 1 empty_storage
       [(0, Call_set ''a'' ''val1'' 5), (0, Call_set ''b'' ''val2'' 0), (0, Call_set ''c'' ''val3'' 10)])
   \<and> getManySorted (steady 6) (run 1 empty_storage
       [(0, Call_set ''a'' ''val1'' 5), (0, Call_set ''b'' ''val2'' 0), (0, Call_set ''c'' ''val3'' 10)])
       ''a'' 3
     = [(''b'', ''val2''), (''c'', ''val3'')]
   \<and> length (getManySorted (steady 6) (run 1 empty_storage
       [(0, Call_set ''a'' ''val1'' 5), (0, Call_set ''b'' ''val2'' 0), (0, Call_set ''c'' ''val3'' 10)])
       ''a'' 3) < unat (3 :: 32 word)
   \<and> getManySorted (steady 11) (run 1 empty_storage
       [(0, Call_set ''a'' ''val1'' 5), (0, Call_set ''b'' ''val2'' 0), (0, Call_set ''c'' ''val3'' 10)])
       '''' 1
     = [(''b'', ''val2'')]"
proof -
  let ?s = "run 1 empty_storage
       [(0, Call_set ''a'' ''val1'' 5), (0, Call_set ''b'' ''val2'' 0), (0, Call_set ''c'' ''val3'' 10)]"
  have wf: "well_formed ?s"
    using well_formed_empty_storage by (rule well_formed_run)
  have recs: "records ?s =
      [(''a'', \<lparr>value_str = ''val1'', expiry = Some 5\<rparr>),
       (''b'', \<lparr>value_str = ''val2'', expiry = None\<rparr>),
       (''c'', \<lparr>value_str = ''val3'', expiry = Some 10\<rparr>)]"
    by (simp add: set_kv_def empty_storage_def seconds_def to_int64_def steady_def)
  have "getManySorted (steady 6) ?s ''a'' 3
      = getManySorted_spec 6 (records ?s) ''a'' (unat (3 :: 32 word))"
    using getManySorted_returns [OF wf, of "steady 6" "''a''" 3 6]
    by (rule conjunct2 [THEN conjunct1])
  also have "\<dots> = [(''b'', ''val2''), (''c'', ''val3'')]"
    unfolding recs by (simp add: getManySorted_spec_def expired_def)
  finally have first: "getManySorted (steady 6) ?s ''a'' 3 = [(''b'', ''val2''), (''c'', ''val3'')]" .
  have "getManySorted (steady 11) ?s '''' 1
      = getManySorted_spec 11 (records ?s) '''' (unat (1 :: 32 word))"
    using getManySorted_returns [OF wf, of "steady 11" "''''" 1 11]
    by (rule conjunct2 [THEN conjunct1])
  also have "\<dots> = [(''b'', ''val2'')]"
    unfolding recs by (simp add: getManySorted_spec_def expired_def)
  finally have second: "getManySorted (steady 11) ?s '''' 1 = [(''b'', ''val2'')]" .
  from first have fewer: "length (getManySorted (steady 6) ?s ''a'' 3) < unat (3 :: 32 word)"
    by simp
  show ?thesis
    using wf first fewer second by (intro conjI)
qed

text \<open>
  C6 as the claim has it, with one current instant for the call: a clock that advances
  during the scan. The entries a and b both expire at instant 1, and the clock reports 0
  at the first reading of the call and 1 at the second. The call returns a alone; the
  entries not expired at instant 0 are a and b, and at instant 1 there is none.
\<close>

theorem getManySorted_returns_counterexample:
  "getManySorted int
       (run 1 empty_storage [(0, Call_set ''a'' ''va'' 1), (0, Call_set ''b'' ''vb'' 1)]) '''' 2
     = [(''a'', ''va'')]
   \<and> getManySorted_spec 0
       (records (run 1 empty_storage [(0, Call_set ''a'' ''va'' 1), (0, Call_set ''b'' ''vb'' 1)]))
       '''' (unat (2 :: 32 word))
     = [(''a'', ''va''), (''b'', ''vb'')]
   \<and> getManySorted_spec 1
       (records (run 1 empty_storage [(0, Call_set ''a'' ''va'' 1), (0, Call_set ''b'' ''vb'' 1)]))
       '''' (unat (2 :: 32 word))
     = []"
  by (simp add: getManySorted_def getManySorted_spec_def expired_def set_kv_def Let_def
      empty_storage_def seconds_def to_int64_def steady_def)

section \<open>The bulk constructor\<close>

lemma KVStorage_loop_foldl:
  "KVStorage_loop sec clock i entries s =
     foldl (\<lambda>s (i, key, v, ttl). set_kv sec (clock i) s key v ttl) s
       (zip [i..<i + length entries] entries)"
proof (induction entries arbitrary: i s)
  case Nil
  then show ?case by simp
next
  case (Cons x entries)
  obtain key v ttl where x: "x = (key, v, ttl)" by (cases x)
  have "[i..<i + length (x # entries)] = i # [Suc i..<Suc i + length entries]"
    using upt_conv_Cons [of i "i + Suc (length entries)"] by simp
  with Cons.IH [of "Suc i"] show ?case by (simp add: x)
qed

lemma KVStorage_loop_append:
  "KVStorage_loop sec clock i (before @ rest) s =
     KVStorage_loop sec clock (i + length before) rest (KVStorage_loop sec clock i before s)"
proof (induction before arbitrary: i s)
  case Nil
  then show ?case by simp
next
  case (Cons x before)
  obtain key v ttl where x: "x = (key, v, ttl)" by (cases x)
  from Cons.IH [of "Suc i"] show ?case by (simp add: x)
qed

lemma map_find_KVStorage_loop_other:
  "key \<notin> fst ` set entries \<Longrightarrow>
   map_find key (records (KVStorage_loop sec clock i entries s)) = map_find key (records s)"
proof (induction entries arbitrary: i s)
  case Nil
  then show ?case by simp
next
  case (Cons x entries)
  obtain k v ttl where x: "x = (k, v, ttl)" by (cases x)
  from Cons.prems have "key \<noteq> k" and "key \<notin> fst ` set entries" by (auto simp: x)
  with Cons.IH [of "Suc i"] show ?case by (simp add: x map_find_set_kv)
qed

text \<open>
  C7. The engine the bulk constructor builds from a list of (key, value, ttl) triples is
  the engine obtained from the empty one by calling Set once per triple in the given order
  (records and expiry queue alike), and the last triple of a key decides what is stored for
  that key.
\<close>

theorem KVStorage_ctor_by_set:
  "KVStorage_ctor sec clock entries = KVStorage_by_set sec clock entries
   \<and> (entries = before @ (key, v, ttl) # after \<and> key \<notin> fst ` set after
        \<longrightarrow> map_find key (records (KVStorage_ctor sec clock entries))
             = Some \<lparr>value_str = v,
                     expiry = (if ttl \<noteq> 0
                               then Some (to_int64 (clock (length before) + seconds sec ttl))
                               else None)\<rparr>)"
proof -
  have same: "KVStorage_ctor sec clock entries = KVStorage_by_set sec clock entries"
    by (simp add: KVStorage_ctor_def KVStorage_by_set_def KVStorage_loop_foldl)
  have last_wins: "map_find key (records (KVStorage_ctor sec clock entries))
      = Some \<lparr>value_str = v,
              expiry = (if ttl \<noteq> 0
                        then Some (to_int64 (clock (length before) + seconds sec ttl))
                        else None)\<rparr>"
    if split: "entries = before @ (key, v, ttl) # after" and later: "key \<notin> fst ` set after"
  proof -
    let ?s = "KVStorage_loop sec clock 0 before empty_storage"
    have "KVStorage_ctor sec clock entries
        = KVStorage_loop sec clock (Suc (length before)) after
            (set_kv sec (clock (length before)) ?s key v ttl)"
      by (simp add: KVStorage_ctor_def split KVStorage_loop_append)
    with later show ?thesis
      by (simp add: map_find_KVStorage_loop_other map_find_set_kv)
  qed
  from same last_wins show ?thesis by blast
qed

theorem KVStorage_ctor_by_set_witness:
  "[(''k1'', ''v1'', 0), (''k2'', ''v2'', 10), (''k1'', ''v3'', 5)]
     = [(''k1'', ''v1'', 0), (''k2'', ''v2'', 10 :: 32 word)] @ (''k1'', ''v3'', 5) # []
   \<and> ''k1'' \<notin> fst ` set ([] :: (string \<times> string \<times> 32 word) list)
   \<and> KVStorage_ctor 1 (\<lambda>i. int i) [(''k1'', ''v1'', 0), (''k2'', ''v2'', 10), (''k1'', ''v3'', 5)]
     = run 1 empty_storage
         [(0, Call_set ''k1'' ''v1'' 0), (1, Call_set ''k2'' ''v2'' 10), (2, Call_set ''k1'' ''v3'' 5)]
   \<and> map_find ''k1'' (records (KVStorage_ctor 1 (\<lambda>i. int i)
         [(''k1'', ''v1'', 0), (''k2'', ''v2'', 10), (''k1'', ''v3'', 5)]))
     = Some \<lparr>value_str = ''v3'', expiry = Some 7\<rparr>"
proof -
  let ?entries = "[(''k1'', ''v1'', 0), (''k2'', ''v2'', 10), (''k1'', ''v3'', 5 :: 32 word)]"
  let ?before = "[(''k1'', ''v1'', 0), (''k2'', ''v2'', 10 :: 32 word)]"
  have split: "?entries = ?before @ (''k1'', ''v3'', 5) # []" by simp
  have later: "''k1'' \<notin> fst ` set ([] :: (string \<times> string \<times> 32 word) list)" by simp
  note ctor = KVStorage_ctor_by_set [of 1 "\<lambda>i. int i" ?entries ?before "''k1''" "''v3''" 5 "[]"]
  have "KVStorage_ctor 1 (\<lambda>i. int i) ?entries = KVStorage_by_set 1 (\<lambda>i. int i) ?entries"
    using ctor by (rule conjunct1)
  also have "\<dots> = run 1 empty_storage
      [(0, Call_set ''k1'' ''v1'' 0), (1, Call_set ''k2'' ''v2'' 10), (2, Call_set ''k1'' ''v3'' 5)]"
    by (simp add: KVStorage_by_set_def steady_def)
  finally have same: "KVStorage_ctor 1 (\<lambda>i. int i) ?entries = run 1 empty_storage
      [(0, Call_set ''k1'' ''v1'' 0), (1, Call_set ''k2'' ''v2'' 10), (2, Call_set ''k1'' ''v3'' 5)]" .
  have last_wins: "map_find ''k1'' (records (KVStorage_ctor 1 (\<lambda>i. int i) ?entries))
      = Some \<lparr>value_str = ''v3'', expiry = Some 7\<rparr>"
    using ctor [THEN conjunct2, THEN mp, OF conjI [OF split later]]
    by (simp add: seconds_def to_int64_def)
  show ?thesis
    using split later same last_wins by (intro conjI)
qed

section \<open>Reads, determinism, repeated removal\<close>

text \<open>
  C8. Get and GetManySorted leave the engine state, Record Store and Expiry Index, exactly
  as it was, expired entries included.
\<close>

theorem reads_leave_state:
  "snd (exec sec freed clock s (Call_get key)) = s
   \<and> snd (exec sec freed clock s (Call_getManySorted key count)) = s"
  by simp

text \<open>
  C9. Every public operation is deterministic: the same call, from engines with equal
  Record Store and equal Expiry Index, with the clock reporting the same instant, returns
  the same result and leaves the same engine. The code on an engine that holds one entry
  with a key of 16 bytes and a ttl of one second, the clock at 2:
  \<open>removeOneExpiredEntry\<close> returns as the key what the freed memory of the erased
  element reads as, so the same call from the same engine at the same instant returns
  the key itself with one content of that memory and something else with another.
\<close>

theorem removeOneExpiredEntry_key_from_freed_memory:
  "exec 1 freed (steady 2) (run 1 empty_storage [(0, Call_set ''0123456789abcdef'' ''v'' 1)])
       Call_removeOneExpiredEntry
     = (Ret_entry (Some (freed ''0123456789abcdef'', ''v'')), empty_storage)
   \<and> exec 1 id (steady 2) (run 1 empty_storage [(0, Call_set ''0123456789abcdef'' ''v'' 1)])
       Call_removeOneExpiredEntry
     = (Ret_entry (Some (''0123456789abcdef'', ''v'')), empty_storage)
   \<and> exec 1 rev (steady 2) (run 1 empty_storage [(0, Call_set ''0123456789abcdef'' ''v'' 1)])
       Call_removeOneExpiredEntry
     = (Ret_entry (Some (''fedcba9876543210'', ''v'')), empty_storage)"
  by (simp add: set_kv_def empty_storage_def seconds_def to_int64_def steady_def
      removeOneExpiredEntry_def read_after_erase_def map_subscript_def)

text \<open>
  C10. After Remove(k), a second Remove(k) right away returns false and leaves the engine
  state unchanged.
\<close>

theorem remove_kv_twice:
  assumes "well_formed s"
  shows "remove_kv (snd (remove_kv s key)) key = (False, snd (remove_kv s key))"
proof (cases "map_find key (records s)")
  case None
  then show ?thesis by (simp add: remove_kv_def)
next
  case (Some r)
  from assms have "map_find key (map_erase key (records s)) = None"
    by (simp add: well_formed_def map_find_map_erase_same)
  with Some show ?thesis
    by (simp add: remove_kv_def Let_def split: option.splits)
qed

theorem remove_kv_twice_witness:
  "well_formed (set_kv 1 0 empty_storage ''key'' ''value'' 5)
   \<and> remove_kv (set_kv 1 0 empty_storage ''key'' ''value'' 5) ''key'' = (True, empty_storage)
   \<and> remove_kv empty_storage ''key'' = (False, empty_storage)"
proof -
  let ?s = "set_kv 1 0 empty_storage ''key'' ''value'' 5"
  have wf: "well_formed ?s"
    by (simp add: well_formed_set_kv well_formed_empty_storage)
  have first: "remove_kv ?s ''key'' = (True, empty_storage)"
    by (simp add: remove_kv_def set_kv_def empty_storage_def seconds_def to_int64_def)
  from remove_kv_twice [OF wf, of "''key''"] first
  have "remove_kv empty_storage ''key'' = (False, empty_storage)" by simp
  with wf first show ?thesis by simp
qed

end
